theory Spec2Isabelle
  imports Complex_Main
begin

section \<open>Configuration constants of download\_full\_quran.py\<close>

text \<open>
  The table of verse counts of the 114 surahs, the reciters, the CDN base URL, the
  mirror root (as the list of its path components) and the concurrency limit,
  as the module declares them.
\<close>

definition VERSE_COUNTS :: "int list" where
  "VERSE_COUNTS =
    [7, 286, 200, 176, 120, 165, 206, 75, 129, 109,
     123, 111, 43, 52, 99, 128, 111, 110, 98, 135,
     112, 78, 118, 64, 77, 227, 93, 88, 69, 60,
     34, 30, 73, 54, 45, 83, 182, 88, 75, 85,
     54, 53, 89, 59, 37, 35, 38, 29, 18, 45,
     60, 49, 62, 55, 78, 96, 29, 22, 24, 13,
     14, 11, 11, 18, 12, 12, 30, 52, 52, 44,
     28, 28, 20, 56, 40, 31, 50, 40, 46, 42,
     29, 19, 36, 25, 22, 17, 19, 26, 30, 20,
     15, 21, 11, 8, 8, 19, 5, 8, 8, 11,
     11, 8, 3, 9, 5, 4, 7, 3, 6, 3,
     5, 4, 5, 6]"

definition RECITERS :: "string list" where
  "RECITERS = [''ar.alafasy'', ''ar.husary'']"

definition BASE_URL :: string where
  "BASE_URL = ''https://cdn.islamic.network/quran/audio/128''"

type_synonym path = "string list"

definition BASE_DIR :: path where
  "BASE_DIR = [''/'', ''Users'', ''a21'', ''Downloads'', ''hikma_-quran-storyteller'',
               ''public'', ''assets'', ''quran'', ''offline'']"

definition MAX_CONCURRENT :: nat where
  "MAX_CONCURRENT = 8"

section \<open>Python primitives used by the address model\<close>

text \<open>
  \<open>xs[:k]\<close>: a negative bound counts from the end, and a bound outside the list is
  clipped (a slice never raises).
\<close>

definition slice_upto :: "'a list \<Rightarrow> int \<Rightarrow> 'a list" where
  "slice_upto xs k =
     (if k < 0 then take (nat (int (length xs) + k)) xs else take (nat k) xs)"

text \<open>
  \<open>xs[k]\<close>: a negative index counts from the end; outside the list Python raises
  IndexError, which is \<open>None\<close> here.
\<close>

definition py_index :: "'a list \<Rightarrow> int \<Rightarrow> 'a option" where
  "py_index xs k =
     (let n = int (length xs); j = (if k < 0 then n + k else k)
      in if 0 \<le> j \<and> j < n then Some (xs ! nat j) else None)"

section \<open>Address model\<close>

text \<open>
  \<open>calculate_global_verse_number\<close>: the sum of the counts sliced before the surah,
  plus the verse number.
\<close>

definition calculate_global_verse_number :: "int \<Rightarrow> int \<Rightarrow> int" where
  "calculate_global_verse_number surah_num verse_num =
     (let verses_before = sum_list (slice_upto VERSE_COUNTS (surah_num - 1))
      in verses_before + verse_num)"

text \<open>The number of items of a collection, for a collection id in 1..114.\<close>

definition item_count :: "int \<Rightarrow> int" where
  "item_count c = VERSE_COUNTS ! nat (c - 1)"

text \<open>The valid (collection, item) pairs of the catalog.\<close>

definition valid_pair :: "int \<times> int \<Rightarrow> bool" where
  "valid_pair p =
     (case p of (c, i) \<Rightarrow> 1 \<le> c \<and> c \<le> 114 \<and> 1 \<le> i \<and> i \<le> item_count c)"

section \<open>Paths and URLs\<close>

text \<open>
  \<open>str(n)\<close> of an integer: its decimal digits, with a leading minus sign when negative.
\<close>

definition digit_char :: "nat \<Rightarrow> char" where
  "digit_char d = char_of (48 + d)"

fun str_nat :: "nat \<Rightarrow> string" where
  "str_nat n = (if n < 10 then [digit_char n] else str_nat (n div 10) @ [digit_char (n mod 10)])"

declare str_nat.simps [simp del]

definition str_int :: "int \<Rightarrow> string" where
  "str_int i = (if i < 0 then CHR ''-'' # str_nat (nat (- i)) else str_nat (nat i))"

text \<open>
  \<open>get_download_path\<close>: \<open>BASE_DIR / reciter / str(surah_num) / f"{verse_num}.mp3"\<close>, a path
  being the list of its components (the reciter is one component, as every entry of
  \<open>RECITERS\<close> is).
\<close>

definition get_download_path :: "string \<Rightarrow> int \<Rightarrow> int \<Rightarrow> path" where
  "get_download_path reciter surah_num verse_num =
     BASE_DIR @ [reciter, str_int surah_num, str_int verse_num @ ''.mp3'']"

text \<open>\<open>file_path.parent\<close>.\<close>

definition parent :: "path \<Rightarrow> path" where
  "parent p = butlast p"

text \<open>The request URL \<open>f"{BASE_URL}/{reciter}/{global_verse_num}.mp3"\<close>.\<close>

definition verse_url :: "string \<Rightarrow> int \<Rightarrow> string" where
  "verse_url reciter global_verse_num =
     BASE_URL @ ''/'' @ reciter @ ''/'' @ str_int global_verse_num @ ''.mp3''"

section \<open>The local filesystem and the environment\<close>

text \<open>
  The mirror: the regular files with their contents, and the directories.
  \<open>Path.exists()\<close> is true of a path that is either.
\<close>

record fs =
  files :: "path \<rightharpoonup> string"
  dirs :: "path set"

definition path_exists :: "fs \<Rightarrow> path \<Rightarrow> bool" where
  "path_exists s p = (files s p \<noteq> None \<or> p \<in> dirs s)"

text \<open>
  \<open>mkdir(parents=True, exist_ok=True)\<close>, when it succeeds: the directory and all its
  ancestors are directories afterwards.
\<close>

definition ancestors_and_self :: "path \<Rightarrow> path set" where
  "ancestors_and_self p = set (map (\<lambda>k. take k p) [1..<Suc (length p)])"

definition mkdir_parents :: "fs \<Rightarrow> path \<Rightarrow> fs" where
  "mkdir_parents s p = s\<lparr>dirs := dirs s \<union> ancestors_and_self p\<rparr>"

text \<open>
  What the world outside the program answers. The endpoint answers a GET of a URL with a
  status and a body, with a timeout, or with another exception of the client library
  (raised by the request or by reading the body). The operating system lets a directory
  creation succeed or raises an error; opening the target for writing succeeds or raises,
  and the write itself succeeds or raises after some bytes have been written.
\<close>

datatype net_outcome = Response int string | Timeout | TransportError string

datatype write_outcome = WriteOk | OpenError string | WriteError nat string

record env =
  endpoint :: "string \<Rightarrow> net_outcome"
  mkdir_outcome :: "path \<Rightarrow> string option"
  write_outcome :: "path \<Rightarrow> write_outcome"

text \<open>Exceptions that leave a function of the downloader.\<close>

datatype exn = OSError string | IndexError

text \<open>The observable actions of a run, in the order the program performs them.\<close>

datatype event =
    Acquire
  | Release
  | Exists_check path
  | Mkdir path
  | Request_delay
  | Get string
  | Write path string
  | Create_session
  | Close_session
  | Progress int "int \<times> int \<times> int \<times> int"
  | Cooldown

section \<open>Transfer unit\<close>

text \<open>
  \<open>download_verse\<close>. The whole body runs inside \<open>async with self.semaphore\<close>: the slot is
  taken first and given back on every way out. The existence check comes next; then the
  parent directory is created, outside the \<open>try\<close>, so an error of \<open>mkdir\<close> leaves the
  function as an exception (\<open>Inl\<close>). The delay, the request, the reading of the body and
  the write are inside the \<open>try\<close>: a timeout and every other exception become a
  \<open>(False, message)\<close> result. \<open>open(file_path, 'wb')\<close> creates the file before the write,
  so a write that fails leaves the bytes written so far.
\<close>

definition download_verse ::
  "env \<Rightarrow> fs \<Rightarrow> string \<Rightarrow> int \<Rightarrow> int \<Rightarrow> int \<Rightarrow> exn + ((bool \<times> string) \<times> fs \<times> event list)" where
  "download_verse e s reciter surah_num verse_num global_verse_num =
     (let file_path = get_download_path reciter surah_num verse_num in
      if path_exists s file_path
      then Inr ((True, ''skipped''), s, [Acquire, Exists_check file_path, Release])
      else
        (case mkdir_outcome e (parent file_path) of
           Some err \<Rightarrow> Inl (OSError err)
         | None \<Rightarrow>
            (let s1 = mkdir_parents s (parent file_path);
                 url = verse_url reciter global_verse_num;
                 pre = [Acquire, Exists_check file_path, Mkdir (parent file_path),
                        Request_delay, Get url]
             in case endpoint e url of
                  Response status content \<Rightarrow>
                    if status = 200
                    then (case write_outcome e file_path of
                            WriteOk \<Rightarrow>
                              Inr ((True, ''downloaded''),
                                   s1\<lparr>files := (files s1)(file_path \<mapsto> content)\<rparr>,
                                   pre @ [Write file_path content, Release])
                          | OpenError msg \<Rightarrow> Inr ((False, msg), s1, pre @ [Release])
                          | WriteError n msg \<Rightarrow>
                              Inr ((False, msg),
                                   s1\<lparr>files := (files s1)(file_path \<mapsto> take n content)\<rparr>,
                                   pre @ [Write file_path (take n content), Release]))
                    else Inr ((False, ''HTTP '' @ str_int status), s1, pre @ [Release])
                | Timeout \<Rightarrow> Inr ((False, ''timeout''), s1, pre @ [Release])
                | TransportError msg \<Rightarrow> Inr ((False, msg), s1, pre @ [Release]))))"

section \<open>Batch orchestrator\<close>

text \<open>
  The tasks of one surah, gathered. The tasks write to pairwise different files, so the
  results and the final mirror do not depend on how the scheduler interleaves them; the
  model runs them in the order of the task list, which is also the order of the results
  of \<open>asyncio.gather\<close>. An exception of one task leaves \<open>gather\<close>.
\<close>

fun run_tasks ::
  "env \<Rightarrow> fs \<Rightarrow> string \<Rightarrow> int \<Rightarrow> int list \<Rightarrow> exn + ((bool \<times> string) list \<times> fs \<times> event list)" where
  "run_tasks e s reciter surah_num [] = Inr ([], s, [])"
| "run_tasks e s reciter surah_num (verse_num # rest) =
     (case download_verse e s reciter surah_num verse_num
             (calculate_global_verse_number surah_num verse_num) of
        Inl x \<Rightarrow> Inl x
      | Inr (r, s1, tr1) \<Rightarrow>
          (case run_tasks e s1 reciter surah_num rest of
             Inl x \<Rightarrow> Inl x
           | Inr (rs, s2, tr2) \<Rightarrow> Inr (r # rs, s2, tr1 @ tr2)))"

record surah_result =
  downloaded :: int
  skipped :: int
  failed :: int
  total :: int

text \<open>The three counts of \<open>download_surah\<close> over the gathered results.\<close>

definition count_downloaded :: "(bool \<times> string) list \<Rightarrow> int" where
  "count_downloaded results =
     int (length (filter (\<lambda>(success, msg). success \<and> msg = ''downloaded'') results))"

definition count_skipped :: "(bool \<times> string) list \<Rightarrow> int" where
  "count_skipped results =
     int (length (filter (\<lambda>(success, msg). success \<and> msg = ''skipped'') results))"

definition count_failed :: "(bool \<times> string) list \<Rightarrow> int" where
  "count_failed results = int (length (filter (\<lambda>(success, msg). \<not> success) results))"

definition download_surah ::
  "env \<Rightarrow> fs \<Rightarrow> string \<Rightarrow> int \<Rightarrow> exn + (surah_result \<times> fs \<times> event list)" where
  "download_surah e s reciter surah_num =
     (case py_index VERSE_COUNTS (surah_num - 1) of
        None \<Rightarrow> Inl IndexError
      | Some verse_count \<Rightarrow>
          (case run_tasks e s reciter surah_num [1..verse_count] of
             Inl x \<Rightarrow> Inl x
           | Inr (results, s1, tr) \<Rightarrow>
               Inr (\<lparr>downloaded = count_downloaded results,
                     skipped = count_skipped results,
                     failed = count_failed results,
                     total = verse_count\<rparr>, s1, tr)))"

text \<open>The run-wide counters of \<open>QuranDownloader\<close>, zero after \<open>__init__\<close>.\<close>

record downloader =
  total_downloaded :: int
  total_skipped :: int
  total_failed :: int

definition new_downloader :: downloader where
  "new_downloader = \<lparr>total_downloaded = 0, total_skipped = 0, total_failed = 0\<rparr>"

text \<open>
  The pause test of \<open>download_all\<close>, \<open>result['failed'] > result['total'] * 0.5\<close>. The product
  is a float; it is exact for every total below \<open>2 ^ 53\<close>, and Python compares an int
  with a float exactly, so the test is the comparison of the real numbers.
\<close>

definition too_many_failures :: "surah_result \<Rightarrow> bool" where
  "too_many_failures result = (real_of_int (failed result) > real_of_int (total result) * 0.5)"

text \<open>
  The body of the loop over the surahs: download the surah, add its counts to the
  totals, print the progress line (the surah number with the total, downloaded, skipped
  and failed counts), and pause when there were too many failures.
\<close>

definition surah_body ::
  "env \<Rightarrow> string \<Rightarrow> downloader \<times> fs \<times> event list \<Rightarrow> int
    \<Rightarrow> exn + (downloader \<times> fs \<times> event list)" where
  "surah_body e reciter acc surah_num =
     (case acc of (d, s, tr) \<Rightarrow>
        (case download_surah e s reciter surah_num of
           Inl x \<Rightarrow> Inl x
         | Inr (result, s1, tr1) \<Rightarrow>
             Inr (d\<lparr>total_downloaded := total_downloaded d + downloaded result,
                    total_skipped := total_skipped d + skipped result,
                    total_failed := total_failed d + failed result\<rparr>,
                  s1,
                  tr @ tr1
                    @ [Progress surah_num (total result, downloaded result,
                                           skipped result, failed result)]
                    @ (if too_many_failures result then [Cooldown] else []))))"

fun surah_loop ::
  "env \<Rightarrow> string \<Rightarrow> downloader \<times> fs \<times> event list \<Rightarrow> int list
    \<Rightarrow> exn + (downloader \<times> fs \<times> event list)" where
  "surah_loop e reciter acc [] = Inr acc"
| "surah_loop e reciter acc (surah_num # rest) =
     (case surah_body e reciter acc surah_num of
        Inl x \<Rightarrow> Inl x
      | Inr acc1 \<Rightarrow> surah_loop e reciter acc1 rest)"

fun reciter_loop ::
  "env \<Rightarrow> downloader \<times> fs \<times> event list \<Rightarrow> string list
    \<Rightarrow> exn + (downloader \<times> fs \<times> event list)" where
  "reciter_loop e acc [] = Inr acc"
| "reciter_loop e acc (reciter # rest) =
     (case surah_loop e reciter acc [1..114] of
        Inl x \<Rightarrow> Inl x
      | Inr acc1 \<Rightarrow> reciter_loop e acc1 rest)"

text \<open>
  \<open>download_all\<close>: open the session, run the two loops, and close the session in the
  \<open>finally\<close> clause; an exception of the loops leaves the function after that.
\<close>

definition download_all ::
  "env \<Rightarrow> downloader \<Rightarrow> fs \<Rightarrow> exn + (downloader \<times> fs \<times> event list)" where
  "download_all e d s =
     (case reciter_loop e (d, s, [Create_session]) RECITERS of
        Inl x \<Rightarrow> Inl x
      | Inr (d1, s1, tr) \<Rightarrow> Inr (d1, s1, tr @ [Close_session]))"

section \<open>Observations on traces and environments\<close>

fun is_write :: "event \<Rightarrow> bool" where
  "is_write (Write p c) = True"
| "is_write ev = False"

fun is_request :: "event \<Rightarrow> bool" where
  "is_request (Get u) = True"
| "is_request ev = False"

text \<open>An endpoint that answers every request with status 200.\<close>

definition always_200 :: "env \<Rightarrow> bool" where
  "always_200 e = (\<forall>u. \<exists>body. endpoint e u = Response 200 body)"

text \<open>A local filesystem on which every directory creation and every write succeeds.\<close>

definition mkdir_ok :: "env \<Rightarrow> bool" where
  "mkdir_ok e = (\<forall>p. mkdir_outcome e p = None)"

definition local_ok :: "env \<Rightarrow> bool" where
  "local_ok e = (mkdir_ok e \<and> (\<forall>p. write_outcome e p = WriteOk))"

text \<open>A request that ends in a failure: a status other than 200, a timeout, an exception.\<close>

fun request_fails :: "net_outcome \<Rightarrow> bool" where
  "request_fails (Response status body) = (status \<noteq> 200)"
| "request_fails Timeout = True"
| "request_fails (TransportError msg) = True"

text \<open>The mirror is empty when no download path exists.\<close>

definition mirror_empty :: "fs \<Rightarrow> bool" where
  "mirror_empty s = (\<forall>reciter surah_num verse_num.
     \<not> path_exists s (get_download_path reciter surah_num verse_num))"

text \<open>The existing paths that have the depth of a download path.\<close>

definition stored_targets :: "fs \<Rightarrow> path set" where
  "stored_targets s = {q. path_exists s q \<and> length q = length BASE_DIR + 3}"

text \<open>The download paths of one surah of one reciter.\<close>

definition surah_paths :: "string \<Rightarrow> int \<Rightarrow> path set" where
  "surah_paths reciter surah_num =
     get_download_path reciter surah_num ` {1..item_count surah_num}"

section \<open>Concrete inputs\<close>

definition empty_fs :: fs where
  "empty_fs = \<lparr>files = Map.empty, dirs = {}\<rparr>"

definition env_200 :: env where
  "env_200 = \<lparr>endpoint = (\<lambda>u. Response 200 ''audio''),
              mkdir_outcome = (\<lambda>p. None),
              write_outcome = (\<lambda>p. WriteOk)\<rparr>"

definition env_404 :: env where
  "env_404 = \<lparr>endpoint = (\<lambda>u. Response 404 ''''),
              mkdir_outcome = (\<lambda>p. None),
              write_outcome = (\<lambda>p. WriteOk)\<rparr>"

definition env_denied :: env where
  "env_denied = \<lparr>endpoint = (\<lambda>u. Response 200 ''audio''),
                 mkdir_outcome = (\<lambda>p. Some ''Permission denied''),
                 write_outcome = (\<lambda>p. WriteOk)\<rparr>"

text \<open>A mirror that already holds verse 1 of surah 1 of the first reciter.\<close>

definition one_file_fs :: fs where
  "one_file_fs = \<lparr>files = [get_download_path ''ar.alafasy'' 1 1 \<mapsto> ''audio''],
                  dirs = ancestors_and_self (parent (get_download_path ''ar.alafasy'' 1 1))\<rparr>"

section \<open>Prefix sums of a table of counts\<close>

lemma prefix_sum_mono:
  fixes cs :: "int list"
  assumes "\<forall>x \<in> set cs. 0 \<le> x" and "j \<le> k"
  shows "sum_list (take j cs) \<le> sum_list (take k cs)"
proof -
  have "take k cs = take j cs @ take (k - j) (drop j cs)"
    using assms(2) by (metis le_add_diff_inverse take_add)
  moreover have "0 \<le> sum_list (take (k - j) (drop j cs))"
    using assms(1) by (intro sum_list_nonneg) (auto dest!: in_set_takeD in_set_dropD)
  ultimately show ?thesis by simp
qed

lemma prefix_sum_Suc:
  fixes cs :: "int list"
  assumes "k < length cs"
  shows "sum_list (take (Suc k) cs) = sum_list (take k cs) + cs ! k"
  using assms by (simp add: take_Suc_conv_app_nth)

lemma prefix_sum_le_total:
  fixes cs :: "int list"
  assumes "\<forall>x \<in> set cs. 0 \<le> x"
  shows "sum_list (take k cs) \<le> sum_list cs"
proof (cases "k \<le> length cs")
  case True
  then show ?thesis using prefix_sum_mono [OF assms, of k "length cs"] by simp
next
  case False
  then show ?thesis by simp
qed

text \<open>
  Two positions (block \<open>j\<close>, offset \<open>a\<close>) and (block \<open>k\<close>, offset \<open>b\<close>) with the same
  flat number lie in the same block.
\<close>

lemma flat_number_block_le:
  fixes cs :: "int list"
  assumes nonneg: "\<forall>x \<in> set cs. 0 \<le> x"
    and j: "j < length cs" and a: "1 \<le> a" "a \<le> cs ! j"
    and b: "1 \<le> b"
    and eq: "sum_list (take j cs) + a = sum_list (take k cs) + b"
  shows "k \<le> j"
proof (rule ccontr)
  assume "\<not> k \<le> j"
  then have "Suc j \<le> k" by simp
  then have "sum_list (take (Suc j) cs) \<le> sum_list (take k cs)"
    by (rule prefix_sum_mono [OF nonneg])
  then have "sum_list (take j cs) + cs ! j \<le> sum_list (take k cs)"
    using j by (simp add: prefix_sum_Suc)
  then show False using a b eq by linarith
qed

lemma flat_number_inj:
  fixes cs :: "int list"
  assumes nonneg: "\<forall>x \<in> set cs. 0 \<le> x"
    and j: "j < length cs" "1 \<le> a" "a \<le> cs ! j"
    and k: "k < length cs" "1 \<le> b" "b \<le> cs ! k"
    and eq: "sum_list (take j cs) + a = sum_list (take k cs) + b"
  shows "j = k \<and> a = b"
proof -
  have "k \<le> j"
    using flat_number_block_le [OF nonneg j(1) j(2) j(3) k(2) eq] .
  moreover have "j \<le> k"
    using flat_number_block_le [OF nonneg k(1) k(2) k(3) j(2) eq [symmetric]] .
  ultimately have "j = k" by simp
  then show ?thesis using eq by simp
qed

lemma flat_number_surj:
  fixes cs :: "int list"
  assumes "1 \<le> n" and "n \<le> sum_list cs"
  shows "\<exists>k a. k < length cs \<and> 1 \<le> a \<and> a \<le> cs ! k \<and> n = sum_list (take k cs) + a"
  using assms
proof (induction cs rule: rev_induct)
  case Nil
  then show ?case by simp
next
  case (snoc x cs)
  show ?case
  proof (cases "n \<le> sum_list cs")
    case True
    then obtain k a where ka: "k < length cs" "1 \<le> a" "a \<le> cs ! k"
        "n = sum_list (take k cs) + a"
      using snoc.IH snoc.prems(1) by blast
    then have "k < length (cs @ [x]) \<and> 1 \<le> a \<and> a \<le> (cs @ [x]) ! k
        \<and> n = sum_list (take k (cs @ [x])) + a"
      by (simp add: nth_append)
    then show ?thesis by blast
  next
    case False
    then have "length cs < length (cs @ [x]) \<and> 1 \<le> n - sum_list cs
        \<and> n - sum_list cs \<le> (cs @ [x]) ! length cs
        \<and> n = sum_list (take (length cs) (cs @ [x])) + (n - sum_list cs)"
      using snoc.prems(2) by simp
    then show ?thesis by blast
  qed
qed

lemma flat_number_range:
  fixes cs :: "int list"
  assumes nonneg: "\<forall>x \<in> set cs. 0 \<le> x"
    and k: "k < length cs" "1 \<le> a" "a \<le> cs ! k"
  shows "1 \<le> sum_list (take k cs) + a \<and> sum_list (take k cs) + a \<le> sum_list cs"
proof -
  have "0 \<le> sum_list (take k cs)"
    using nonneg by (intro sum_list_nonneg) (auto dest!: in_set_takeD)
  moreover have "sum_list (take (Suc k) cs) \<le> sum_list cs"
    by (rule prefix_sum_le_total [OF nonneg])
  ultimately show ?thesis using k by (simp add: prefix_sum_Suc)
qed

section \<open>Facts about the table\<close>

lemma length_VERSE_COUNTS: "length VERSE_COUNTS = 114"
  by (simp add: VERSE_COUNTS_def)

lemma sum_VERSE_COUNTS: "sum_list VERSE_COUNTS = 6236"
  by (simp add: VERSE_COUNTS_def)

lemma VERSE_COUNTS_pos: "\<forall>x \<in> set VERSE_COUNTS. 1 \<le> x"
  by (simp add: VERSE_COUNTS_def)

lemma VERSE_COUNTS_nonneg: "\<forall>x \<in> set VERSE_COUNTS. 0 \<le> x"
  using VERSE_COUNTS_pos by force

lemma global_number_take:
  assumes "1 \<le> c"
  shows "calculate_global_verse_number c i = sum_list (take (nat (c - 1)) VERSE_COUNTS) + i"
  using assms by (simp add: calculate_global_verse_number_def slice_upto_def)

lemma valid_pair_index:
  assumes "valid_pair (c, i)"
  shows "nat (c - 1) < length VERSE_COUNTS" and "1 \<le> i" and "i \<le> VERSE_COUNTS ! nat (c - 1)"
    and "1 \<le> c"
  using assms by (auto simp: valid_pair_def item_count_def length_VERSE_COUNTS)

lemma global_number_inj:
  assumes "valid_pair (c, i)" and "valid_pair (d, j)"
    and "calculate_global_verse_number c i = calculate_global_verse_number d j"
  shows "c = d \<and> i = j"
proof -
  have "sum_list (take (nat (c - 1)) VERSE_COUNTS) + i
      = sum_list (take (nat (d - 1)) VERSE_COUNTS) + j"
    using assms valid_pair_index(4) by (simp add: global_number_take)
  then have "nat (c - 1) = nat (d - 1) \<and> i = j"
    using flat_number_inj [OF VERSE_COUNTS_nonneg] valid_pair_index(1,2,3) assms(1,2)
    by blast
  then show ?thesis
    using valid_pair_index(4) [OF assms(1)] valid_pair_index(4) [OF assms(2)] by auto
qed

lemma global_number_bij:
  "bij_betw (\<lambda>(c, i). calculate_global_verse_number c i) {p. valid_pair p} {1..6236}"
  unfolding bij_betw_def
proof (intro conjI)
  show "inj_on (\<lambda>(c, i). calculate_global_verse_number c i) {p. valid_pair p}"
    by (rule inj_onI) (auto dest: global_number_inj)
next
  show "(\<lambda>(c, i). calculate_global_verse_number c i) ` {p. valid_pair p} = {1..6236}"
  proof (intro equalityI subsetI)
    fix n
    assume "n \<in> (\<lambda>(c, i). calculate_global_verse_number c i) ` {p. valid_pair p}"
    then obtain c i where v: "valid_pair (c, i)" and n: "n = calculate_global_verse_number c i"
      by auto
    have "1 \<le> sum_list (take (nat (c - 1)) VERSE_COUNTS) + i
        \<and> sum_list (take (nat (c - 1)) VERSE_COUNTS) + i \<le> sum_list VERSE_COUNTS"
      using flat_number_range [OF VERSE_COUNTS_nonneg] valid_pair_index(1,2,3) [OF v] by blast
    then show "n \<in> {1..6236}"
      using n valid_pair_index(4) [OF v] by (simp add: global_number_take sum_VERSE_COUNTS)
  next
    fix n :: int
    assume "n \<in> {1..6236}"
    then have "1 \<le> n" "n \<le> sum_list VERSE_COUNTS"
      by (simp_all add: sum_VERSE_COUNTS)
    then obtain k a where ka: "k < length VERSE_COUNTS" "1 \<le> a" "a \<le> VERSE_COUNTS ! k"
        "n = sum_list (take k VERSE_COUNTS) + a"
      using flat_number_surj by blast
    have "valid_pair (int k + 1, a)"
      using ka(1,2,3) by (simp add: valid_pair_def item_count_def length_VERSE_COUNTS)
    moreover have "n = calculate_global_verse_number (int k + 1) a"
      using ka(4) by (simp add: global_number_take)
    ultimately show "n \<in> (\<lambda>(c, i). calculate_global_verse_number c i) ` {p. valid_pair p}"
      by (intro image_eqI [where x = "(int k + 1, a)"]) auto
  qed
qed

section \<open>Claims about the address model\<close>

text \<open>
  C1. For every valid pair (collection in 1..114, item in 1..item\_count collection) the
  global index is the sum of the item counts of all earlier collections plus the item
  number; it is strictly increasing in the item number inside one collection; the first
  global index of collection c+1 is one more than the last global index of collection c;
  and the mapping is a bijection from the valid pairs onto the dense range 1..6236.
\<close>

theorem global_index_dense_bijection:
  "(\<forall>c i. valid_pair (c, i) \<longrightarrow>
      calculate_global_verse_number c i = sum_list (take (nat (c - 1)) VERSE_COUNTS) + i)
   \<and> (\<forall>c i j. valid_pair (c, i) \<and> valid_pair (c, j) \<and> i < j \<longrightarrow>
      calculate_global_verse_number c i < calculate_global_verse_number c j)
   \<and> (\<forall>c. 1 \<le> c \<and> c < 114 \<longrightarrow>
      calculate_global_verse_number (c + 1) 1
        = calculate_global_verse_number c (item_count c) + 1)
   \<and> bij_betw (\<lambda>(c, i). calculate_global_verse_number c i) {p. valid_pair p} {1..6236}"
proof (intro conjI allI impI)
  fix c i
  assume "valid_pair (c, i)"
  then show "calculate_global_verse_number c i
      = sum_list (take (nat (c - 1)) VERSE_COUNTS) + i"
    by (simp add: global_number_take valid_pair_def)
next
  fix c i j
  assume "valid_pair (c, i) \<and> valid_pair (c, j) \<and> i < j"
  then show "calculate_global_verse_number c i < calculate_global_verse_number c j"
    by (simp add: calculate_global_verse_number_def)
next
  fix c :: int
  assume c: "1 \<le> c \<and> c < 114"
  then have k: "nat (c - 1) < length VERSE_COUNTS"
    unfolding length_VERSE_COUNTS by linarith
  have "nat (c + 1 - 1) = Suc (nat (c - 1))"
    using c by linarith
  then have "calculate_global_verse_number (c + 1) 1
      = sum_list (take (Suc (nat (c - 1))) VERSE_COUNTS) + 1"
    using c by (simp add: global_number_take)
  also have "\<dots> = sum_list (take (nat (c - 1)) VERSE_COUNTS) + VERSE_COUNTS ! nat (c - 1) + 1"
    using k by (simp add: prefix_sum_Suc)
  also have "\<dots> = calculate_global_verse_number c (item_count c) + 1"
    using c by (simp add: global_number_take item_count_def)
  finally show "calculate_global_verse_number (c + 1) 1
      = calculate_global_verse_number c (item_count c) + 1" .
next
  show "bij_betw (\<lambda>(c, i). calculate_global_verse_number c i) {p. valid_pair p} {1..6236}"
    by (rule global_number_bij)
qed

theorem global_index_dense_bijection_witness:
  "valid_pair (2, 1) \<and> valid_pair (2, 286) \<and> valid_pair (1, 7)
   \<and> calculate_global_verse_number 2 1 = 8
   \<and> calculate_global_verse_number 2 1 < calculate_global_verse_number 2 286
   \<and> calculate_global_verse_number 2 1 = calculate_global_verse_number 1 (item_count 1) + 1"
proof -
  have v: "valid_pair (2, 1)" "valid_pair (2, 286)" "valid_pair (1, 7)"
    by (simp_all add: valid_pair_def item_count_def VERSE_COUNTS_def)
  have t: "sum_list (take (nat (2 - 1)) VERSE_COUNTS) + 1 = (8::int)"
    by (simp add: VERSE_COUNTS_def)
  have a: "calculate_global_verse_number 2 1 = 8"
    using global_index_dense_bijection v(1) t by metis
  have b: "calculate_global_verse_number 2 1 < calculate_global_verse_number 2 286"
    using global_index_dense_bijection v(1,2) by simp
  have "(1::int) \<le> 1 \<and> (1::int) < 114" by simp
  then have "calculate_global_verse_number (1 + 1) 1
      = calculate_global_verse_number 1 (item_count 1) + 1"
    using global_index_dense_bijection by blast
  then have c: "calculate_global_verse_number 2 1
      = calculate_global_verse_number 1 (item_count 1) + 1"
    by simp
  show ?thesis using v a b c by simp
qed

section \<open>Facts about paths\<close>

lemma digit_char_inj: "a < 10 \<Longrightarrow> b < 10 \<Longrightarrow> digit_char a = digit_char b \<Longrightarrow> a = b"
  unfolding digit_char_def char_of_eq_iff
  by (simp add: take_bit_eq_mod)

lemma str_nat_nonempty: "str_nat n \<noteq> []"
  by (subst str_nat.simps) simp

lemma length_str_nat_ge10: "10 \<le> n \<Longrightarrow> 2 \<le> length (str_nat n)"
  using str_nat_nonempty [of "n div 10"]
  by (subst str_nat.simps) (cases "str_nat (n div 10)"; simp)

lemma str_nat_inj: "str_nat n = str_nat m \<Longrightarrow> n = m"
proof (induction n arbitrary: m rule: str_nat.induct)
  case (1 n)
  show ?case
  proof (cases "n < 10")
    case True
    then have ln: "length (str_nat n) = 1" by (subst str_nat.simps) simp
    have m: "m < 10"
    proof (rule ccontr)
      assume "\<not> m < 10"
      then have "2 \<le> length (str_nat m)" by (simp add: length_str_nat_ge10)
      then show False using ln "1.prems" by simp
    qed
    have "[digit_char n] = [digit_char m]"
      using "1.prems" True m by (simp add: str_nat.simps [of n] str_nat.simps [of m])
    then show ?thesis using digit_char_inj True m by simp
  next
    case False
    have m: "\<not> m < 10"
    proof
      assume "m < 10"
      then have "length (str_nat m) = 1" by (subst str_nat.simps) simp
      moreover have "2 \<le> length (str_nat n)" using False by (simp add: length_str_nat_ge10)
      ultimately show False using "1.prems" by simp
    qed
    have "str_nat (n div 10) @ [digit_char (n mod 10)] = str_nat (m div 10) @ [digit_char (m mod 10)]"
      using "1.prems" False m by (simp add: str_nat.simps [of n] str_nat.simps [of m])
    then have a: "str_nat (n div 10) = str_nat (m div 10)" and b: "digit_char (n mod 10) = digit_char (m mod 10)"
      by simp_all
    have "n div 10 = m div 10" using "1.IH" [OF False a] .
    moreover have "n mod 10 = m mod 10" using digit_char_inj [OF _ _ b] by simp
    ultimately show ?thesis by (metis div_mult_mod_eq)
  qed
qed

lemma str_int_inj: "0 \<le> i \<Longrightarrow> 0 \<le> j \<Longrightarrow> str_int i = str_int j \<Longrightarrow> i = j"
  by (auto simp: str_int_def dest!: str_nat_inj)

lemma get_download_path_inj:
  assumes "0 \<le> s" "0 \<le> s'" "0 \<le> v" "0 \<le> v'"
    and "get_download_path r s v = get_download_path r' s' v'"
  shows "r = r' \<and> s = s' \<and> v = v'"
  using assms by (auto simp: get_download_path_def dest: str_int_inj)

lemma length_get_download_path: "length (get_download_path r s v) = length BASE_DIR + 3"
  by (simp add: get_download_path_def)

lemma ancestors_length: "q \<in> ancestors_and_self p \<Longrightarrow> length q \<le> length p"
  by (auto simp: ancestors_and_self_def)

lemma target_not_ancestor:
  "get_download_path r s v \<notin> ancestors_and_self (parent (get_download_path r' s' v'))"
proof
  assume "get_download_path r s v \<in> ancestors_and_self (parent (get_download_path r' s' v'))"
  then have "length (get_download_path r s v) \<le> length (parent (get_download_path r' s' v'))"
    by (rule ancestors_length)
  then show False by (simp add: parent_def length_get_download_path)
qed

section \<open>Facts about the transfer unit\<close>

lemma download_verse_skip:
  assumes "path_exists s (get_download_path r sn v)"
  shows "download_verse e s r sn v g
    = Inr ((True, ''skipped''), s, [Acquire, Exists_check (get_download_path r sn v), Release])"
  using assms by (simp add: download_verse_def)

lemma download_verse_cases:
  assumes "download_verse e s r sn v g = Inr (res, s', tr)"
  obtains
    (skip) "path_exists s (get_download_path r sn v)" "res = (True, ''skipped'')" "s' = s"
      "tr = [Acquire, Exists_check (get_download_path r sn v), Release]"
  | (stored) body where "\<not> path_exists s (get_download_path r sn v)"
      "mkdir_outcome e (parent (get_download_path r sn v)) = None"
      "endpoint e (verse_url r g) = Response 200 body"
      "write_outcome e (get_download_path r sn v) = WriteOk"
      "res = (True, ''downloaded'')"
      "s' = (mkdir_parents s (parent (get_download_path r sn v)))
             \<lparr>files := (files s)(get_download_path r sn v \<mapsto> body)\<rparr>"
      "tr = [Acquire, Exists_check (get_download_path r sn v),
             Mkdir (parent (get_download_path r sn v)), Request_delay, Get (verse_url r g),
             Write (get_download_path r sn v) body, Release]"
  | (partial) body n msg where "\<not> path_exists s (get_download_path r sn v)"
      "mkdir_outcome e (parent (get_download_path r sn v)) = None"
      "endpoint e (verse_url r g) = Response 200 body"
      "write_outcome e (get_download_path r sn v) = WriteError n msg"
      "res = (False, msg)"
      "s' = (mkdir_parents s (parent (get_download_path r sn v)))
             \<lparr>files := (files s)(get_download_path r sn v \<mapsto> take n body)\<rparr>"
      "tr = [Acquire, Exists_check (get_download_path r sn v),
             Mkdir (parent (get_download_path r sn v)), Request_delay, Get (verse_url r g),
             Write (get_download_path r sn v) (take n body), Release]"
  | (refused) msg where "\<not> path_exists s (get_download_path r sn v)"
      "mkdir_outcome e (parent (get_download_path r sn v)) = None"
      "(\<exists>body m. endpoint e (verse_url r g) = Response 200 body
          \<and> write_outcome e (get_download_path r sn v) = OpenError m)
       \<or> request_fails (endpoint e (verse_url r g))"
      "res = (False, msg)"
      "s' = mkdir_parents s (parent (get_download_path r sn v))"
      "tr = [Acquire, Exists_check (get_download_path r sn v),
             Mkdir (parent (get_download_path r sn v)), Request_delay, Get (verse_url r g),
             Release]"
  using assms
  by (auto simp: download_verse_def Let_def mkdir_parents_def
           split: if_splits option.splits net_outcome.splits write_outcome.splits)


lemma download_verse_total:
  assumes "path_exists s (get_download_path r sn v)
           \<or> mkdir_outcome e (parent (get_download_path r sn v)) = None"
  shows "\<exists>res s' tr. download_verse e s r sn v g = Inr (res, s', tr)"
  using assms
  by (auto simp: download_verse_def Let_def
           split: net_outcome.splits write_outcome.splits)

lemma download_verse_store:
  assumes "\<not> path_exists s (get_download_path r sn v)"
    and "mkdir_outcome e (parent (get_download_path r sn v)) = None"
    and "endpoint e (verse_url r g) = Response 200 body"
    and "write_outcome e (get_download_path r sn v) = WriteOk"
  shows "download_verse e s r sn v g
    = Inr ((True, ''downloaded''),
           (mkdir_parents s (parent (get_download_path r sn v)))
             \<lparr>files := (files s)(get_download_path r sn v \<mapsto> body)\<rparr>,
           [Acquire, Exists_check (get_download_path r sn v),
            Mkdir (parent (get_download_path r sn v)), Request_delay, Get (verse_url r g),
            Write (get_download_path r sn v) body, Release])"
  using assms by (simp add: download_verse_def Let_def mkdir_parents_def)

lemma download_verse_request_fails:
  assumes "\<not> path_exists s (get_download_path r sn v)"
    and "mkdir_outcome e (parent (get_download_path r sn v)) = None"
    and "request_fails (endpoint e (verse_url r g))"
  shows "\<exists>msg. download_verse e s r sn v g
    = Inr ((False, msg), mkdir_parents s (parent (get_download_path r sn v)),
           [Acquire, Exists_check (get_download_path r sn v),
            Mkdir (parent (get_download_path r sn v)), Request_delay, Get (verse_url r g),
            Release])"
  using assms
  by (cases "endpoint e (verse_url r g)") (simp_all add: download_verse_def Let_def)

lemma path_exists_mkdir_parents:
  "path_exists (mkdir_parents s p) q \<longleftrightarrow> path_exists s q \<or> q \<in> ancestors_and_self p"
  by (auto simp: path_exists_def mkdir_parents_def)

lemma download_verse_tag:
  assumes "download_verse e s r sn v g = Inr (res, s', tr)"
  shows "res = (True, ''skipped'') \<or> res = (True, ''downloaded'') \<or> \<not> fst res"
  using assms by (cases rule: download_verse_cases) auto

lemma download_verse_mono:
  assumes "download_verse e s r sn v g = Inr (res, s', tr)" and "path_exists s q"
  shows "path_exists s' q"
  using assms
  by (cases rule: download_verse_cases)
     (auto simp: path_exists_def mkdir_parents_def)

lemma download_verse_frame:
  assumes "download_verse e s r sn v g = Inr (res, s', tr)"
    and "q \<noteq> get_download_path r sn v" and "length q = length BASE_DIR + 3"
  shows "path_exists s' q = path_exists s q"
proof -
  have na: "q \<notin> ancestors_and_self (parent (get_download_path r sn v))"
    using assms(3) ancestors_length [of q "parent (get_download_path r sn v)"]
    by (auto simp: parent_def length_get_download_path)
  show ?thesis
    using assms(1) na assms(2)
    by (cases rule: download_verse_cases)
       (auto simp: path_exists_def mkdir_parents_def)
qed

lemma download_verse_keeps_files:
  assumes "download_verse e s r sn v g = Inr (res, s', tr)"
  shows "(\<forall>q. q \<noteq> get_download_path r sn v \<longrightarrow> files s' q = files s q)
       \<and> (\<forall>q. files s q \<noteq> None \<longrightarrow> files s' q = files s q)
       \<and> length (filter is_write tr) \<le> 1"
  using assms
  by (cases rule: download_verse_cases)
     (auto simp: path_exists_def mkdir_parents_def)

lemma stored_targets_store:
  assumes "download_verse e s r sn v g = Inr ((True, ''downloaded''), s', tr)"
  shows "stored_targets s' = insert (get_download_path r sn v) (stored_targets s)"
proof -
  have ex: "path_exists s' (get_download_path r sn v)"
    using assms
    by (cases rule: download_verse_cases) (auto simp: path_exists_def mkdir_parents_def)
  show ?thesis
  proof (intro equalityI subsetI)
    fix q assume "q \<in> stored_targets s'"
    then show "q \<in> insert (get_download_path r sn v) (stored_targets s)"
      using download_verse_frame [OF assms, of q] by (auto simp: stored_targets_def)
  next
    fix q assume "q \<in> insert (get_download_path r sn v) (stored_targets s)"
    then show "q \<in> stored_targets s'"
      using ex download_verse_mono [OF assms, of q]
      by (auto simp: stored_targets_def length_get_download_path)
  qed
qed

lemma stored_targets_iff:
  "get_download_path r sn v \<in> stored_targets s \<longleftrightarrow> path_exists s (get_download_path r sn v)"
  by (simp add: stored_targets_def length_get_download_path)

section \<open>Facts about the tasks of one surah\<close>

lemma run_tasks_total:
  assumes "mkdir_ok e"
  shows "\<exists>results s' tr. run_tasks e s r sn vs = Inr (results, s', tr)"
proof (induction vs arbitrary: s)
  case Nil
  show ?case by simp
next
  case (Cons v vs)
  have "mkdir_outcome e (parent (get_download_path r sn v)) = None"
    using assms by (simp add: mkdir_ok_def)
  then have "\<exists>res s1 tr1.
      download_verse e s r sn v (calculate_global_verse_number sn v) = Inr (res, s1, tr1)"
    by (intro download_verse_total) simp
  then obtain res s1 tr1 where
    dv: "download_verse e s r sn v (calculate_global_verse_number sn v) = Inr (res, s1, tr1)"
    by blast
  obtain results s2 tr2 where "run_tasks e s1 r sn vs = Inr (results, s2, tr2)"
    using Cons.IH by blast
  then show ?case using dv by simp
qed

lemma run_tasks_tags:
  assumes "run_tasks e s r sn vs = Inr (results, s', tr)"
  shows "length results = length vs
    \<and> (\<forall>res \<in> set results. res = (True, ''skipped'') \<or> res = (True, ''downloaded'') \<or> \<not> fst res)"
  using assms
proof (induction vs arbitrary: s results tr)
  case Nil
  then show ?case by simp
next
  case (Cons v vs)
  from Cons.prems obtain res s1 tr1 rs tr2 where
    dv: "download_verse e s r sn v (calculate_global_verse_number sn v) = Inr (res, s1, tr1)"
    and rt: "run_tasks e s1 r sn vs = Inr (rs, s', tr2)"
    and results: "results = res # rs"
    by (auto split: sum.splits)
  show ?case
    using Cons.IH [OF rt] download_verse_tag [OF dv] results by auto
qed

lemma counts_partition:
  assumes "\<forall>res \<in> set results. res = (True, ''skipped'') \<or> res = (True, ''downloaded'') \<or> \<not> fst res"
  shows "count_downloaded results + count_skipped results + count_failed results
    = int (length results)"
  using assms
  by (induction results) (auto simp: count_downloaded_def count_skipped_def count_failed_def)

lemma py_index_VERSE_COUNTS:
  assumes "1 \<le> sn" "sn \<le> 114"
  shows "py_index VERSE_COUNTS (sn - 1) = Some (item_count sn)"
  using assms by (simp add: py_index_def item_count_def length_VERSE_COUNTS Let_def)

lemma py_index_in_set: "py_index xs k = Some x \<Longrightarrow> x \<in> set xs"
  by (auto simp: py_index_def Let_def split: if_splits)

lemma download_surah_partition:
  assumes "download_surah e s r sn = Inr (result, s', tr)"
  shows "downloaded result + skipped result + failed result = total result"
proof -
  from assms obtain n results where
    n: "py_index VERSE_COUNTS (sn - 1) = Some n"
    and rt: "run_tasks e s r sn [1..n] = Inr (results, s', tr)"
    and result: "result = \<lparr>downloaded = count_downloaded results,
      skipped = count_skipped results, failed = count_failed results, total = n\<rparr>"
    by (auto simp: download_surah_def split: option.splits sum.splits)
  have "1 \<le> n" using py_index_in_set [OF n] VERSE_COUNTS_pos by blast
  then have "int (length [1..n]) = n" by simp
  then show ?thesis
    using run_tasks_tags [OF rt] counts_partition [of results] result by simp
qed

lemma download_surah_total:
  assumes "download_surah e s r sn = Inr (result, s', tr)" "1 \<le> sn" "sn \<le> 114"
  shows "total result = item_count sn"
  using assms py_index_VERSE_COUNTS [of sn]
  by (auto simp: download_surah_def split: option.splits sum.splits)

lemma download_surah_returns:
  assumes "mkdir_ok e" "1 \<le> sn" "sn \<le> 114"
  shows "\<exists>result s' tr. download_surah e s r sn = Inr (result, s', tr)"
proof -
  obtain results s' tr where "run_tasks e s r sn [1..item_count sn] = Inr (results, s', tr)"
    using run_tasks_total [OF assms(1)] by blast
  then show ?thesis
    using py_index_VERSE_COUNTS [OF assms(2,3)] by (simp add: download_surah_def)
qed


lemma count_replicate_downloaded:
  "count_downloaded (replicate n (True, ''downloaded'')) = int n"
  "count_skipped (replicate n (True, ''downloaded'')) = 0"
  "count_failed (replicate n (True, ''downloaded'')) = 0"
  by (simp_all add: count_downloaded_def count_skipped_def count_failed_def)

lemma count_replicate_skipped:
  "count_downloaded (replicate n (True, ''skipped'')) = 0"
  "count_skipped (replicate n (True, ''skipped'')) = int n"
  "count_failed (replicate n (True, ''skipped'')) = 0"
  by (simp_all add: count_downloaded_def count_skipped_def count_failed_def)

lemma run_tasks_present:
  assumes "\<forall>v \<in> set vs. path_exists s (get_download_path r sn v)"
  shows "\<exists>tr. run_tasks e s r sn vs = Inr (replicate (length vs) (True, ''skipped''), s, tr)"
  using assms
proof (induction vs)
  case Nil
  show ?case by simp
next
  case (Cons v vs)
  then obtain tr where "run_tasks e s r sn vs = Inr (replicate (length vs) (True, ''skipped''), s, tr)"
    by auto
  moreover have "path_exists s (get_download_path r sn v)" using Cons.prems by simp
  ultimately show ?case by (simp add: download_verse_skip)
qed

lemma run_tasks_fresh:
  assumes ok: "local_ok e" "always_200 e"
    and sn: "0 \<le> sn"
    and "distinct vs" "\<forall>v \<in> set vs. 0 \<le> v"
    and "\<forall>v \<in> set vs. \<not> path_exists s (get_download_path r sn v)"
  shows "\<exists>s' tr. run_tasks e s r sn vs = Inr (replicate (length vs) (True, ''downloaded''), s', tr)
    \<and> stored_targets s' = stored_targets s \<union> get_download_path r sn ` set vs"
  using assms(4-)
proof (induction vs arbitrary: s)
  case Nil
  show ?case by simp
next
  case (Cons v vs)
  let ?p = "get_download_path r sn v"
  let ?g = "calculate_global_verse_number sn v"
  obtain body where body: "endpoint e (verse_url r ?g) = Response 200 body"
    using ok(2) unfolding always_200_def by blast
  have absent: "\<not> path_exists s ?p" using Cons.prems by simp
  have mk: "mkdir_outcome e (parent ?p) = None" and wr: "write_outcome e ?p = WriteOk"
    using ok(1) by (simp_all add: local_ok_def mkdir_ok_def)
  obtain s1 tr1 where dv: "download_verse e s r sn v ?g = Inr ((True, ''downloaded''), s1, tr1)"
    using download_verse_store [OF absent mk body wr] by blast
  have st1: "stored_targets s1 = insert ?p (stored_targets s)"
    by (rule stored_targets_store [OF dv])
  have "\<forall>w \<in> set vs. \<not> path_exists s1 (get_download_path r sn w)"
  proof
    fix w assume w: "w \<in> set vs"
    then have "w \<noteq> v" using Cons.prems(1) by auto
    moreover have "0 \<le> w" "0 \<le> v" using w Cons.prems(2) by simp_all
    ultimately have "get_download_path r sn w \<noteq> ?p"
      using get_download_path_inj [OF sn sn, of w v r r] by blast
    moreover have "get_download_path r sn w \<notin> stored_targets s"
      using Cons.prems(3) w by (simp add: stored_targets_iff)
    ultimately have "get_download_path r sn w \<notin> stored_targets s1"
      using st1 by simp
    then show "\<not> path_exists s1 (get_download_path r sn w)"
      by (simp add: stored_targets_iff)
  qed
  then obtain s' tr where
    rt: "run_tasks e s1 r sn vs = Inr (replicate (length vs) (True, ''downloaded''), s', tr)"
    and st': "stored_targets s' = stored_targets s1 \<union> get_download_path r sn ` set vs"
    using Cons.IH [of s1] Cons.prems(1,2) by auto
  show ?case using dv rt st' st1 by auto
qed


lemma item_count_pos:
  assumes "1 \<le> sn" "sn \<le> 114"
  shows "1 \<le> item_count sn"
proof -
  have "nat (sn - 1) < length VERSE_COUNTS"
    using assms unfolding length_VERSE_COUNTS by linarith
  then have "VERSE_COUNTS ! nat (sn - 1) \<in> set VERSE_COUNTS" by (rule nth_mem)
  then show ?thesis using VERSE_COUNTS_pos by (simp add: item_count_def)
qed

lemma surah_paths_set: "surah_paths r sn = get_download_path r sn ` set [1..item_count sn]"
  by (simp add: surah_paths_def)

lemma surah_paths_disjoint:
  assumes "0 \<le> sn" "0 \<le> sn'" "r \<noteq> r' \<or> sn \<noteq> sn'"
  shows "surah_paths r sn \<inter> surah_paths r' sn' = {}"
proof (rule ccontr)
  assume "surah_paths r sn \<inter> surah_paths r' sn' \<noteq> {}"
  then obtain v v' where "1 \<le> v" "1 \<le> v'"
    "get_download_path r sn v = get_download_path r' sn' v'"
    by (auto simp: surah_paths_def)
  then have "r = r' \<and> sn = sn'"
    using get_download_path_inj [OF assms(1,2), of v v' r r'] by simp
  then show False using assms(3) by simp
qed

lemma download_surah_fresh:
  assumes ok: "local_ok e" "always_200 e"
    and sn: "1 \<le> sn" "sn \<le> 114"
    and fresh: "surah_paths r sn \<inter> stored_targets s = {}"
  shows "\<exists>result s' tr. download_surah e s r sn = Inr (result, s', tr)
    \<and> downloaded result = item_count sn \<and> skipped result = 0 \<and> failed result = 0
    \<and> total result = item_count sn
    \<and> stored_targets s' = stored_targets s \<union> surah_paths r sn"
proof -
  have "\<forall>v \<in> set [1..item_count sn]. \<not> path_exists s (get_download_path r sn v)"
    using fresh by (auto simp: surah_paths_def stored_targets_iff [symmetric])
  moreover have "\<forall>v \<in> set [1..item_count sn]. 0 \<le> v" by simp
  moreover have "0 \<le> sn" using sn by simp
  ultimately obtain s' tr where
    rt: "run_tasks e s r sn [1..item_count sn]
       = Inr (replicate (length [1..item_count sn]) (True, ''downloaded''), s', tr)"
    and st: "stored_targets s' = stored_targets s \<union> get_download_path r sn ` set [1..item_count sn]"
    using run_tasks_fresh [OF ok, of sn "[1..item_count sn]" s r] by auto
  have len: "int (length [1..item_count sn]) = item_count sn"
    using item_count_pos [OF sn] by simp
  show ?thesis
    using rt st len py_index_VERSE_COUNTS [OF sn]
    by (simp add: download_surah_def count_replicate_downloaded surah_paths_set)
qed

lemma download_surah_present:
  assumes sn: "1 \<le> sn" "sn \<le> 114"
    and present: "surah_paths r sn \<subseteq> stored_targets s"
  shows "\<exists>result tr. download_surah e s r sn = Inr (result, s, tr)
    \<and> downloaded result = 0 \<and> skipped result = item_count sn \<and> failed result = 0
    \<and> total result = item_count sn"
proof -
  have "\<forall>v \<in> set [1..item_count sn]. path_exists s (get_download_path r sn v)"
    using present by (auto simp: surah_paths_def stored_targets_iff [symmetric])
  then obtain tr where
    rt: "run_tasks e s r sn [1..item_count sn]
       = Inr (replicate (length [1..item_count sn]) (True, ''skipped''), s, tr)"
    using run_tasks_present by blast
  have len: "int (length [1..item_count sn]) = item_count sn"
    using item_count_pos [OF sn] by simp
  show ?thesis
    using rt len py_index_VERSE_COUNTS [OF sn]
    by (simp add: download_surah_def count_replicate_skipped)
qed

lemma surah_loop_fresh:
  assumes ok: "local_ok e" "always_200 e"
    and "distinct sns" "\<forall>sn \<in> set sns. 1 \<le> sn \<and> sn \<le> 114"
    and "\<forall>sn \<in> set sns. surah_paths r sn \<inter> stored_targets s = {}"
  shows "\<exists>d' s' tr'. surah_loop e r (d, s, tr) sns = Inr (d', s', tr')
    \<and> total_downloaded d' = total_downloaded d + sum_list (map item_count sns)
    \<and> total_skipped d' = total_skipped d \<and> total_failed d' = total_failed d
    \<and> stored_targets s' = stored_targets s \<union> (\<Union>sn \<in> set sns. surah_paths r sn)"
  using assms(3-)
proof (induction sns arbitrary: d s tr)
  case Nil
  show ?case by simp
next
  case (Cons sn sns)
  have sn: "1 \<le> sn" "sn \<le> 114" using Cons.prems(2) by simp_all
  have fresh: "surah_paths r sn \<inter> stored_targets s = {}" using Cons.prems(3) by simp
  obtain result s1 tr1 where
    ds: "download_surah e s r sn = Inr (result, s1, tr1)"
    and res: "downloaded result = item_count sn" "skipped result = 0" "failed result = 0"
    and st1: "stored_targets s1 = stored_targets s \<union> surah_paths r sn"
    using download_surah_fresh [OF ok sn fresh] by blast
  define d1 where "d1 = d\<lparr>total_downloaded := total_downloaded d + downloaded result,
    total_skipped := total_skipped d + skipped result,
    total_failed := total_failed d + failed result\<rparr>"
  define tr1' where "tr1' = tr @ tr1
    @ [Progress sn (total result, downloaded result, skipped result, failed result)]
    @ (if too_many_failures result then [Cooldown] else [])"
  have body: "surah_body e r (d, s, tr) sn = Inr (d1, s1, tr1')"
    using ds by (simp add: surah_body_def d1_def tr1'_def)
  have d1: "total_downloaded d1 = total_downloaded d + item_count sn"
      "total_skipped d1 = total_skipped d" "total_failed d1 = total_failed d"
    using res by (simp_all add: d1_def)
  have "\<forall>sn' \<in> set sns. surah_paths r sn' \<inter> stored_targets s1 = {}"
  proof
    fix sn' assume m: "sn' \<in> set sns"
    then have "sn' \<noteq> sn" "0 \<le> sn'" using Cons.prems(1,2) by auto
    then have "surah_paths r sn' \<inter> surah_paths r sn = {}"
      using surah_paths_disjoint [of sn' sn r r] sn by simp
    moreover have "surah_paths r sn' \<inter> stored_targets s = {}" using Cons.prems(3) m by simp
    ultimately show "surah_paths r sn' \<inter> stored_targets s1 = {}" using st1 by auto
  qed
  then obtain d' s' tr' where
    loop: "surah_loop e r (d1, s1, tr1') sns = Inr (d', s', tr')"
    and d': "total_downloaded d' = total_downloaded d1 + sum_list (map item_count sns)"
      "total_skipped d' = total_skipped d1" "total_failed d' = total_failed d1"
    and st': "stored_targets s' = stored_targets s1 \<union> (\<Union>sn \<in> set sns. surah_paths r sn)"
    using Cons.IH [of s1 d1 tr1'] Cons.prems(1,2) by auto
  show ?case using body loop d1 d' st1 st' by auto
qed

lemma surah_loop_present:
  assumes "\<forall>sn \<in> set sns. 1 \<le> sn \<and> sn \<le> 114"
    and "\<forall>sn \<in> set sns. surah_paths r sn \<subseteq> stored_targets s"
  shows "\<exists>d' tr'. surah_loop e r (d, s, tr) sns = Inr (d', s, tr')
    \<and> total_downloaded d' = total_downloaded d
    \<and> total_skipped d' = total_skipped d + sum_list (map item_count sns)
    \<and> total_failed d' = total_failed d"
  using assms
proof (induction sns arbitrary: d tr)
  case Nil
  show ?case by simp
next
  case (Cons sn sns)
  have sn: "1 \<le> sn" "sn \<le> 114" using Cons.prems(1) by simp_all
  have present: "surah_paths r sn \<subseteq> stored_targets s" using Cons.prems(2) by simp
  obtain result tr1 where
    ds: "download_surah e s r sn = Inr (result, s, tr1)"
    and res: "downloaded result = 0" "skipped result = item_count sn" "failed result = 0"
    using download_surah_present [OF sn present] by blast
  define d1 where "d1 = d\<lparr>total_downloaded := total_downloaded d + downloaded result,
    total_skipped := total_skipped d + skipped result,
    total_failed := total_failed d + failed result\<rparr>"
  define tr1' where "tr1' = tr @ tr1
    @ [Progress sn (total result, downloaded result, skipped result, failed result)]
    @ (if too_many_failures result then [Cooldown] else [])"
  have body: "surah_body e r (d, s, tr) sn = Inr (d1, s, tr1')"
    using ds by (simp add: surah_body_def d1_def tr1'_def)
  have d1: "total_downloaded d1 = total_downloaded d"
      "total_skipped d1 = total_skipped d + item_count sn" "total_failed d1 = total_failed d"
    using res by (simp_all add: d1_def)
  obtain d' tr' where
    loop: "surah_loop e r (d1, s, tr1') sns = Inr (d', s, tr')"
    and d': "total_downloaded d' = total_downloaded d1"
      "total_skipped d' = total_skipped d1 + sum_list (map item_count sns)"
      "total_failed d' = total_failed d1"
    using Cons.IH [of d1 tr1'] Cons.prems by auto
  show ?case using body loop d1 d' by auto
qed

lemma map_item_count: "map item_count [1..114] = VERSE_COUNTS"
proof (rule nth_equalityI)
  show "length (map item_count [1..114]) = length VERSE_COUNTS"
    by (simp add: length_VERSE_COUNTS)
next
  fix i assume "i < length (map item_count [1..114])"
  then have "i < 114" by simp
  then show "map item_count [1..114] ! i = VERSE_COUNTS ! i"
    by (simp add: item_count_def)
qed

lemma sum_item_count: "sum_list (map item_count [1..114]) = 6236"
  by (simp only: map_item_count sum_VERSE_COUNTS)

end
